theory Spec2Isabelle
  imports Complex_Main "HOL-Library.Multiset"
begin

section \<open>Crop windows of a trial\<close>

text \<open>
  The embedding follows \<^verbatim>\<open>braindecode/datautil/iterators.py\<close>. Python integers are
  \<^typ>\<open>int\<close>; a window (block) is a pair \<open>(start, stop)\<close>.

  The body of \<^verbatim>\<open>_get_start_stop_blocks_for_trial\<close> is a \<^verbatim>\<open>while\<close> loop over the cursor
  \<^verbatim>\<open>i_window_stop\<close> that appends to \<^verbatim>\<open>start_stop_blocks\<close>. Nothing in the source bounds
  \<^verbatim>\<open>n_preds_per_input\<close> from below, so the loop can run forever; it is a partial function
  into \<open>option\<close>, where \<open>None\<close> stands for a loop that never returns.
\<close>

partial_function (option) blocks_loop ::
  "int \<Rightarrow> int \<Rightarrow> int \<Rightarrow> int \<Rightarrow> (int \<times> int) list \<Rightarrow> (int \<times> int) list option" where
  "blocks_loop i_window_stop i_trial_stop input_time_length n_preds_per_input start_stop_blocks =
     (if i_window_stop < i_trial_stop then
        (let i_window_stop' = i_window_stop + n_preds_per_input;
             i_adjusted_stop = min i_window_stop' i_trial_stop;
             i_window_start = i_adjusted_stop - input_time_length
         in blocks_loop i_window_stop' i_trial_stop input_time_length n_preds_per_input
              (start_stop_blocks @ [(i_window_start, i_adjusted_stop)]))
      else Some start_stop_blocks)"

declare blocks_loop.simps [code]

definition get_start_stop_blocks_for_trial ::
  "int \<Rightarrow> int \<Rightarrow> int \<Rightarrow> int \<Rightarrow> (int \<times> int) list option" where
  "get_start_stop_blocks_for_trial i_trial_start i_trial_stop input_time_length n_preds_per_input =
     blocks_loop i_trial_start i_trial_stop input_time_length n_preds_per_input []"

text \<open>
  The samples a window predicts: \<^verbatim>\<open>range(stop - n_preds_per_input, stop)\<close>, as a set and
  as the list Python builds.
\<close>

definition predicted_range :: "int \<Rightarrow> int \<times> int \<Rightarrow> int set" where
  "predicted_range n_preds_per_input w = {snd w - n_preds_per_input ..< snd w}"

definition predicted_samples :: "int \<Rightarrow> (int \<times> int) list \<Rightarrow> int set" where
  "predicted_samples n_preds_per_input ws = (\<Union>w \<in> set ws. predicted_range n_preds_per_input w)"

text \<open>
  The predicted ranges of the last two windows of a list share a sample.
\<close>

definition last_two_overlap :: "int \<Rightarrow> (int \<times> int) list \<Rightarrow> bool" where
  "last_two_overlap n ws \<longleftrightarrow>
     2 \<le> length ws
     \<and> predicted_range n (ws ! (length ws - 2)) \<inter> predicted_range n (ws ! (length ws - 1)) \<noteq> {}"

text \<open>
  A total description of the windows the loop emits from cursor \<open>c\<close> on, used to reason
  about the loop: it recurses only while the cursor is below the trial stop and the step is
  positive.
\<close>

function planned_windows :: "int \<Rightarrow> int \<Rightarrow> int \<Rightarrow> int \<Rightarrow> (int \<times> int) list" where
  "planned_windows c i_trial_stop input_time_length n =
     (if c < i_trial_stop \<and> 0 < n
      then (min (c + n) i_trial_stop - input_time_length, min (c + n) i_trial_stop)
             # planned_windows (c + n) i_trial_stop input_time_length n
      else [])"
  by pat_completeness auto
termination
  by (relation "measure (\<lambda>(c, i_trial_stop, input_time_length, n). nat (i_trial_stop - c))") auto

declare planned_windows.simps [simp del]

text \<open>
  The number of windows emitted from cursor \<open>c\<close> on (the integer ceiling of
  \<open>(i_trial_stop - c) / n\<close>) and the \<open>i\<close>-th of them.
\<close>

definition n_windows :: "int \<Rightarrow> int \<Rightarrow> int \<Rightarrow> nat" where
  "n_windows c i_trial_stop n = nat (- ((c - i_trial_stop) div n))"

definition window_at :: "int \<Rightarrow> int \<Rightarrow> int \<Rightarrow> int \<Rightarrow> nat \<Rightarrow> int \<times> int" where
  "window_at c i_trial_stop input_time_length n i =
     (min (c + (int i + 1) * n) i_trial_stop - input_time_length,
      min (c + (int i + 1) * n) i_trial_stop)"

section \<open>Windows of all trials\<close>

text \<open>
  Errors are values. \<open>InputLengthAssertion input_len i_trial input_time_length\<close> is the
  \<^verbatim>\<open>AssertionError\<close> of \<^verbatim>\<open>get_batches\<close> whose message is formatted from these three
  numbers; \<open>AssertionError\<close> is an \<^verbatim>\<open>assert\<close> without message; \<open>ValueError\<close> is raised by
  \<^verbatim>\<open>np.concatenate\<close> on an empty list and by unpacking a row that does not have three
  entries; \<open>IndexError\<close> by indexing out of range.
\<close>

datatype error =
    InputLengthAssertion int nat int
  | AssertionError
  | ValueError
  | IndexError

text \<open>\<^verbatim>\<open>range(a, b)\<close> as the list of its elements.\<close>

definition py_range :: "int \<Rightarrow> int \<Rightarrow> int list" where
  "py_range a b = [a..b - 1]"

text \<open>
  \<^verbatim>\<open>_compute_start_stop_block_inds\<close>: the loop over the trial indices reads both lists at the
  same position, which is recursion on both lists; \<^verbatim>\<open>i_trial_stops[i_trial]\<close> raises when
  that list is the shorter one. With \<^verbatim>\<open>check_preds_smaller_trial_len\<close> the predicted
  samples of the blocks are concatenated (\<^verbatim>\<open>np.concatenate\<close> raises on no blocks at all),
  sorted and deduplicated (\<^verbatim>\<open>np.unique\<close>) and compared with the samples of the trial.
\<close>

fun compute_start_stop_block_inds ::
  "int list \<Rightarrow> int list \<Rightarrow> int \<Rightarrow> int \<Rightarrow> bool \<Rightarrow> (error + (int \<times> int) list list) option" where
  "compute_start_stop_block_inds [] i_trial_stops input_time_length n_preds_per_input
     check_preds_smaller_trial_len = Some (Inr [])"
| "compute_start_stop_block_inds (i_trial_start # i_trial_starts) [] input_time_length
     n_preds_per_input check_preds_smaller_trial_len = Some (Inl IndexError)"
| "compute_start_stop_block_inds (i_trial_start # i_trial_starts) (i_trial_stop # i_trial_stops)
     input_time_length n_preds_per_input check_preds_smaller_trial_len =
     (case get_start_stop_blocks_for_trial i_trial_start i_trial_stop input_time_length
             n_preds_per_input of
        None \<Rightarrow> None
      | Some start_stop_blocks \<Rightarrow>
          if check_preds_smaller_trial_len \<and> start_stop_blocks = [] then Some (Inl ValueError)
          else if check_preds_smaller_trial_len \<and>
                  py_range i_trial_start i_trial_stop \<noteq>
                    sort (remdups (concat (map (\<lambda>(_, stop). py_range (stop - n_preds_per_input) stop)
                                             start_stop_blocks)))
          then Some (Inl AssertionError)
          else (case compute_start_stop_block_inds i_trial_starts i_trial_stops input_time_length
                       n_preds_per_input check_preds_smaller_trial_len of
                  None \<Rightarrow> None
                | Some (Inl e) \<Rightarrow> Some (Inl e)
                | Some (Inr start_stop_blocks_per_trial) \<Rightarrow>
                    Some (Inr (start_stop_blocks # start_stop_blocks_per_trial))))"

section \<open>The iterator\<close>

text \<open>
  A trial is a two-dimensional array, channels by time; only its time axis is read
  (\<^verbatim>\<open>trial.shape[1]\<close>) and sliced (\<^verbatim>\<open>X[i_trial][:, start:stop]\<close>), so a trial is the list of
  its time steps, each step holding the values of all channels (type \<open>'x\<close>). A label either
  has no \<^verbatim>\<open>__len__\<close> (\<open>Scalar\<close>) or is a sequence over the time axis (\<open>PerSample\<close>).
\<close>

datatype 'l label = Scalar 'l | PerSample "'l list"

record ('x, 'l) dataset =
  X :: "'x list list"
  y :: "'l label list"

text \<open>
  The generator \<^verbatim>\<open>numpy.random.RandomState\<close> is outside the repository. It enters as a
  parameter: how a state is made from a seed, and how shuffling a list of indices returns
  the shuffled list and the advanced state.
\<close>

record 'g np_random =
  RandomState :: "int list \<Rightarrow> 'g"
  rng_shuffle :: "'g \<Rightarrow> nat list \<Rightarrow> nat list \<times> 'g"

record 'g crops_iterator =
  batch_size :: int
  input_time_length :: int
  n_preds_per_input :: int
  seed :: "int list"
  rng :: 'g

definition init_iterator :: "'g np_random \<Rightarrow> int \<Rightarrow> int \<Rightarrow> int \<Rightarrow> int list \<Rightarrow> 'g crops_iterator" where
  "init_iterator np bs itl n sd =
     \<lparr>batch_size = bs, input_time_length = itl, n_preds_per_input = n, seed = sd,
      rng = RandomState np sd\<rparr>"

definition reset_rng :: "'g np_random \<Rightarrow> 'g crops_iterator \<Rightarrow> 'g crops_iterator" where
  "reset_rng np self = self\<lparr>rng := RandomState np (seed self)\<rparr>"

text \<open>Python indexing and slicing of a list: negative positions count from the end.\<close>

definition py_get :: "'a list \<Rightarrow> int \<Rightarrow> error + 'a" where
  "py_get xs i =
     (let len = int (length xs); j = (if i < 0 then len + i else i)
      in if 0 \<le> j \<and> j < len then Inr (xs ! nat j) else Inl IndexError)"

definition py_slice :: "'a list \<Rightarrow> int \<Rightarrow> int \<Rightarrow> 'a list" where
  "py_slice xs start stop =
     (let len = int (length xs);
          lo = (if start < 0 then max (start + len) 0 else min start len);
          hi = (if stop < 0 then max (stop + len) 0 else min stop len)
      in take (nat (hi - lo)) (drop (nat lo) xs))"

text \<open>The two loops of \<^verbatim>\<open>get_batches\<close> that assert, each stopping at its first failure.\<close>

fun check_input_lens :: "nat \<Rightarrow> int list \<Rightarrow> int \<Rightarrow> error option" where
  "check_input_lens i_trial [] itl = None"
| "check_input_lens i_trial (input_len # input_lens) itl =
     (if input_len \<ge> itl then check_input_lens (Suc i_trial) input_lens itl
      else Some (InputLengthAssertion input_len i_trial itl))"

fun check_trial_blocks :: "(int \<times> int) list list \<Rightarrow> int list \<Rightarrow> error option" where
  "check_trial_blocks [] i_trial_stops = None"
| "check_trial_blocks (trial_blocks # rest) i_trial_stops =
     (if trial_blocks = [] then Some IndexError
      else if fst (hd trial_blocks) \<noteq> 0 then Some AssertionError
      else (case i_trial_stops of
              [] \<Rightarrow> Some IndexError
            | i_trial_stop # stops \<Rightarrow>
                if snd (last trial_blocks) \<noteq> i_trial_stop then Some AssertionError
                else check_trial_blocks rest stops))"

text \<open>
  \<^verbatim>\<open>get_batches\<close> is an ordinary function that returns a generator: its assertions run at
  the call, the body of \<^verbatim>\<open>_yield_block_batches\<close> runs only when the generator is consumed.
  The generator is the record of the arguments it was created with.
\<close>

record ('x, 'l) block_generator =
  gen_X :: "'x list list"
  gen_y :: "'l label list"
  gen_start_stop_blocks_per_trial :: "(int \<times> int) list list"
  gen_shuffle :: bool

definition get_batches ::
  "'g crops_iterator \<Rightarrow> ('x, 'l) dataset \<Rightarrow> bool \<Rightarrow> (error + ('x, 'l) block_generator) option" where
  "get_batches self dataset shuffle =
     (let n_receptive_field = input_time_length self - n_preds_per_input self + 1;
          i_trial_starts = replicate (length (X dataset)) (n_receptive_field - 1);
          i_trial_stops = map (\<lambda>trial. int (length trial)) (X dataset)
      in case check_input_lens 0 i_trial_stops (input_time_length self) of
           Some e \<Rightarrow> Some (Inl e)
         | None \<Rightarrow>
             (case compute_start_stop_block_inds i_trial_starts i_trial_stops
                     (input_time_length self) (n_preds_per_input self) True of
                None \<Rightarrow> None
              | Some (Inl e) \<Rightarrow> Some (Inl e)
              | Some (Inr start_stop_blocks_per_trial) \<Rightarrow>
                  (case check_trial_blocks start_stop_blocks_per_trial i_trial_stops of
                     Some e \<Rightarrow> Some (Inl e)
                   | None \<Rightarrow>
                       Some (Inr \<lparr>gen_X = X dataset, gen_y = y dataset,
                                  gen_start_stop_blocks_per_trial = start_stop_blocks_per_trial,
                                  gen_shuffle = shuffle\<rparr>))))"

text \<open>
  Modelled from the spec: \<^verbatim>\<open>get_balanced_batches\<close> of \<^verbatim>\<open>braindecode.util\<close> is imported by
  \<^verbatim>\<open>iterators.py\<close> and its source is missing. The specification of the batch partitioner
  says: produce \<open>ceil(n_items / batch_size)\<close> groups; each group is a contiguous block of
  indices (after the optional permutation, done once with the generator) sized
  \<open>batch_size\<close>, except that the final group may be smaller and covers the remainder.
\<close>

definition get_balanced_batches ::
  "'g np_random \<Rightarrow> nat \<Rightarrow> int \<Rightarrow> 'g \<Rightarrow> bool \<Rightarrow> nat list list \<times> 'g" where
  "get_balanced_batches np n_items bs g shuffle =
     (let (all_inds, g') = (if shuffle then rng_shuffle np g [0..<n_items] else ([0..<n_items], g));
          b = nat bs
      in (map (\<lambda>i. take b (drop (i * b) all_inds)) [0..<(n_items + b - 1) div b], g'))"

text \<open>
  \<^verbatim>\<open>_create_batch_from_i_trial_start_stop_blocks\<close>: every row of the index array is unpacked
  into \<^verbatim>\<open>i_trial, start, stop\<close>, which raises \<^verbatim>\<open>ValueError\<close> unless the row has exactly three
  entries. A batch is the list of the crops and the list of their labels; stacking them
  into arrays and the trailing axis are a matter of array layout and are left out.
\<close>

fun create_batch_from_i_trial_start_stop_blocks ::
  "'x list list \<Rightarrow> 'l label list \<Rightarrow> int list list \<Rightarrow> int \<Rightarrow>
     error + ('x list list \<times> 'l label list)" where
  "create_batch_from_i_trial_start_stop_blocks Xd yd [] n = Inr ([], [])"
| "create_batch_from_i_trial_start_stop_blocks Xd yd (row # i_trial_start_stop_block) n =
     (case row of
        [i_trial, start, stop] \<Rightarrow>
          (case py_get Xd i_trial of
             Inl e \<Rightarrow> Inl e
           | Inr trial \<Rightarrow>
               (case py_get yd i_trial of
                  Inl e \<Rightarrow> Inl e
                | Inr lab \<Rightarrow>
                    (case create_batch_from_i_trial_start_stop_blocks Xd yd
                            i_trial_start_stop_block n of
                       Inl e \<Rightarrow> Inl e
                     | Inr (Xs, ys) \<Rightarrow>
                         Inr (py_slice trial start stop # Xs,
                              (case lab of
                                 Scalar v \<Rightarrow> Scalar v
                               | PerSample vs \<Rightarrow> PerSample (py_slice vs (stop - n) stop)) # ys))))
      | _ \<Rightarrow> Inl ValueError)"

text \<open>
  \<^verbatim>\<open>i_trial_start_stop_block[i_blocks]\<close>: the rows of the index array at the positions of
  one group.
\<close>

definition index_rows :: "int list list \<Rightarrow> nat list \<Rightarrow> error + int list list" where
  "index_rows arr i_blocks =
     (if \<forall>i \<in> set i_blocks. i < length arr then Inr (map (\<lambda>i. arr ! i) i_blocks)
      else Inl IndexError)"

text \<open>
  The \<^verbatim>\<open>for\<close> loop of the generator: the batches yielded so far, and the error that ended
  the loop, if one did.
\<close>

fun yield_batches ::
  "'x list list \<Rightarrow> 'l label list \<Rightarrow> int list list \<Rightarrow> int \<Rightarrow> nat list list \<Rightarrow>
     ('x list list \<times> 'l label list) list \<times> error option" where
  "yield_batches Xd yd arr n [] = ([], None)"
| "yield_batches Xd yd arr n (i_blocks # blocks_per_batch) =
     (case index_rows arr i_blocks of
        Inl e \<Rightarrow> ([], Some e)
      | Inr start_stop_blocks \<Rightarrow>
          (case create_batch_from_i_trial_start_stop_blocks Xd yd start_stop_blocks n of
             Inl e \<Rightarrow> ([], Some e)
           | Inr batch \<Rightarrow>
               (let (batches, err) = yield_batches Xd yd arr n blocks_per_batch
                in (batch # batches, err))))"

text \<open>
  \<^verbatim>\<open>_yield_block_batches\<close>, consumed to its end. The index array is the list of its rows
  \<open>[i_trial, start, stop]\<close>. \<^verbatim>\<open>np.array\<close> of an empty list is one-dimensional (shape
  \<open>(0,)\<close>), and of a non-empty list of triples two-dimensional; the one-dimensional array is
  reshaped by \<^verbatim>\<open>[None, :]\<close> to shape \<open>(1, 0)\<close>: one row with no entries. The result is the
  yielded batches, the error that ended the generator if any, and the iterator with its
  generator state advanced.
\<close>

definition flatten_blocks :: "(int \<times> int) list list \<Rightarrow> int list list" where
  "flatten_blocks start_stop_blocks_per_trial =
     concat (map (\<lambda>(i_trial, block). map (\<lambda>(start, stop). [int i_trial, start, stop]) block)
               (enumerate 0 start_stop_blocks_per_trial))"

definition yield_block_batches ::
  "'g np_random \<Rightarrow> 'g crops_iterator \<Rightarrow> ('x, 'l) block_generator \<Rightarrow>
     (('x list list \<times> 'l label list) list \<times> error option) \<times> 'g crops_iterator" where
  "yield_block_batches np self gen =
     (let flat = flatten_blocks (gen_start_stop_blocks_per_trial gen);
          i_trial_start_stop_block = (if flat = [] then [[]] else flat);
          (blocks_per_batch, g') =
             get_balanced_batches np (length i_trial_start_stop_block) (batch_size self)
               (rng self) (gen_shuffle gen)
      in (yield_batches (gen_X gen) (gen_y gen) i_trial_start_stop_block
            (n_preds_per_input self) blocks_per_batch,
          self\<lparr>rng := g'\<rparr>))"

text \<open>
  One call of \<^verbatim>\<open>get_batches\<close> followed by consuming the generator it returns, and a number
  of such calls in a row on the same iterator.
\<close>

definition batches_of_call ::
  "'g np_random \<Rightarrow> 'g crops_iterator \<Rightarrow> ('x, 'l) dataset \<Rightarrow> bool \<Rightarrow>
     ((error + (('x list list \<times> 'l label list) list \<times> error option)) \<times> 'g crops_iterator) option" where
  "batches_of_call np self dataset shuffle =
     (case get_batches self dataset shuffle of
        None \<Rightarrow> None
      | Some (Inl e) \<Rightarrow> Some (Inl e, self)
      | Some (Inr gen) \<Rightarrow>
          (let (out, self') = yield_block_batches np self gen in Some (Inr out, self')))"

fun batches_of_calls ::
  "'g np_random \<Rightarrow> 'g crops_iterator \<Rightarrow> (('x, 'l) dataset \<times> bool) list \<Rightarrow>
     ((error + (('x list list \<times> 'l label list) list \<times> error option)) list \<times> 'g crops_iterator) option" where
  "batches_of_calls np self [] = Some ([], self)"
| "batches_of_calls np self ((dataset, shuffle) # calls) =
     (case batches_of_call np self dataset shuffle of
        None \<Rightarrow> None
      | Some (r, self') \<Rightarrow>
          (case batches_of_calls np self' calls of
             None \<Rightarrow> None
           | Some (rs, self'') \<Rightarrow> Some (r # rs, self'')))"

text \<open>
  A small generator and dataset for running the iterator on concrete inputs: the state counts
  the shuffles done so far, and shuffling rotates the list by that count.
\<close>

definition example_random :: "nat np_random" where
  "example_random = \<lparr>RandomState = (\<lambda>sd. length sd), rng_shuffle = (\<lambda>g xs. (rotate g xs, Suc g))\<rparr>"

definition example_dataset :: "(nat, nat) dataset" where
  "example_dataset = \<lparr>X = [[1, 2, 3, 4, 5, 6]], y = [Scalar 7]\<rparr>"

section \<open>The loop and its windows\<close>

lemma blocks_loop_planned:
  "0 < n \<Longrightarrow> blocks_loop c te L n acc = Some (acc @ planned_windows c te L n)"
proof (induction c te L n arbitrary: acc rule: planned_windows.induct)
  case (1 c te L n)
  show ?case
  proof (cases "c < te")
    case True
    have "blocks_loop c te L n acc
            = blocks_loop (c + n) te L n (acc @ [(min (c + n) te - L, min (c + n) te)])"
      using True by (subst blocks_loop.simps) (simp add: Let_def)
    also have "\<dots> = Some ((acc @ [(min (c + n) te - L, min (c + n) te)])
                         @ planned_windows (c + n) te L n)"
      using "1.IH" True "1.prems" by simp
    also have "\<dots> = Some (acc @ planned_windows c te L n)"
      using True "1.prems" by (subst (2) planned_windows.simps) simp
    finally show ?thesis .
  next
    case False
    then show ?thesis
      by (subst blocks_loop.simps, subst planned_windows.simps) simp
  qed
qed

lemma get_blocks_planned:
  "0 < n \<Longrightarrow> get_start_stop_blocks_for_trial ts te L n = Some (planned_windows ts te L n)"
  by (simp add: get_start_stop_blocks_for_trial_def blocks_loop_planned)

text \<open>
  Without a positive step the cursor never reaches the trial stop: the loop does not return.
\<close>

lemma blocks_loop_returns_only_if:
  assumes "blocks_loop c te L n acc = Some ws"
  shows "n \<le> 0 \<longrightarrow> te \<le> c"
proof (rule blocks_loop.raw_induct [where P = "\<lambda>c te L n acc ws. n \<le> 0 \<longrightarrow> te \<le> c", OF _ assms])
  fix loop :: "int \<Rightarrow> int \<Rightarrow> int \<Rightarrow> int \<Rightarrow> (int \<times> int) list \<Rightarrow> (int \<times> int) list option"
  fix c te L n :: int and acc ws :: "(int \<times> int) list"
  assume IH: "\<And>c te L n acc ws. loop c te L n acc = Some ws \<Longrightarrow> n \<le> 0 \<longrightarrow> te \<le> c"
  assume step: "(if c < te then
        (let c' = c + n; e = min c' te; s = e - L in loop c' te L n (acc @ [(s, e)]))
      else Some acc) = Some ws"
  show "n \<le> 0 \<longrightarrow> te \<le> c"
  proof (intro impI, rule ccontr)
    assume n: "n \<le> 0" and "\<not> te \<le> c"
    then have lt: "c < te" by simp
    then have "loop (c + n) te L n (acc @ [(min (c + n) te - L, min (c + n) te)]) = Some ws"
      using step by (simp add: Let_def)
    then have "n \<le> 0 \<longrightarrow> te \<le> c + n" by (rule IH)
    then show False using lt n by simp
  qed
qed

lemma planning_diverges:
  "trial_start < trial_stop \<Longrightarrow> n \<le> 0 \<Longrightarrow>
   get_start_stop_blocks_for_trial trial_start trial_stop itl n = None"
  using blocks_loop_returns_only_if [of trial_start trial_stop itl n "[]"]
  by (cases "get_start_stop_blocks_for_trial trial_start trial_stop itl n")
     (auto simp: get_start_stop_blocks_for_trial_def)

lemma planned_windows_done: "\<not> (c < te \<and> 0 < n) \<Longrightarrow> planned_windows c te L n = []"
  by (subst planned_windows.simps) simp

lemma planned_windows_step:
  "c < te \<Longrightarrow> 0 < n \<Longrightarrow>
   planned_windows c te L n = (min (c + n) te - L, min (c + n) te) # planned_windows (c + n) te L n"
  by (subst planned_windows.simps) simp

lemma n_windows_zero: "0 < n \<Longrightarrow> te \<le> c \<Longrightarrow> n_windows c te n = 0"
  by (simp add: n_windows_def pos_imp_zdiv_nonneg_iff)

lemma n_windows_step:
  assumes "0 < n" "c < te"
  shows "n_windows c te n = Suc (n_windows (c + n) te n)"
proof -
  have "c + n - te = (c - te) + n" by simp
  then have "(c + n - te) div n = (c - te) div n + 1"
    using assms by (simp only: div_add_self2)
  moreover have "(c - te) div n < 0"
    using assms by (simp add: pos_imp_zdiv_neg_iff)
  ultimately show ?thesis
    by (simp add: n_windows_def nat_eq_iff)
qed

lemma n_windows_bounds:
  assumes "0 < n" "c < te"
  shows "(int (n_windows c te n) - 1) * n < te - c"
    and "te - c \<le> int (n_windows c te n) * n"
    and "0 < n_windows c te n"
proof -
  define q where "q = (c - te) div n"
  define r where "r = (c - te) mod n"
  have q: "q * n + r = c - te" unfolding q_def r_def by simp
  have r: "0 \<le> r" "r < n" using assms unfolding r_def by simp_all
  have qneg: "q < 0" using assms unfolding q_def by (simp add: pos_imp_zdiv_neg_iff)
  then have k: "int (n_windows c te n) = - q" by (simp add: n_windows_def q_def)
  have "(- q - 1) * n = - (q * n) - n" by (simp add: algebra_simps)
  then show "(int (n_windows c te n) - 1) * n < te - c" using q r k by simp
  have "(- q) * n = - (q * n)" by simp
  then show "te - c \<le> int (n_windows c te n) * n" using q r k by simp
  show "0 < n_windows c te n" using qneg k by simp
qed

lemma window_at_shift: "window_at c te L n (Suc i) = window_at (c + n) te L n i"
  by (simp add: window_at_def algebra_simps)

lemma planned_windows_closed:
  "0 < n \<Longrightarrow> planned_windows c te L n = map (window_at c te L n) [0..<n_windows c te n]"
proof (induction c te L n rule: planned_windows.induct)
  case (1 c te L n)
  show ?case
  proof (cases "c < te")
    case True
    have "map (window_at c te L n) [0..<n_windows c te n]
            = window_at c te L n 0 # map (window_at c te L n) (map Suc [0..<n_windows (c + n) te n])"
      using True "1.prems" by (simp add: n_windows_step upt_conv_Cons map_Suc_upt del: upt_Suc)
    also have "\<dots> = window_at c te L n 0 # map (window_at (c + n) te L n) [0..<n_windows (c + n) te n]"
      by (simp add: window_at_shift comp_def)
    also have "\<dots> = window_at c te L n 0 # planned_windows (c + n) te L n"
      using "1.IH" True "1.prems" by simp
    also have "\<dots> = planned_windows c te L n"
      using True "1.prems" by (simp add: planned_windows_step window_at_def)
    finally show ?thesis by simp
  next
    case False
    then show ?thesis
      using "1.prems" by (simp add: planned_windows_done n_windows_zero)
  qed
qed

lemma get_blocks_closed:
  "0 < n \<Longrightarrow> get_start_stop_blocks_for_trial ts te L n
                = Some (map (window_at ts te L n) [0..<n_windows ts te n])"
  by (simp add: get_blocks_planned planned_windows_closed)

lemma stop_inner:
  assumes "0 < n" "c < te" "Suc i < n_windows c te n"
  shows "c + (int i + 1) * n < te"
proof -
  have "int i + 1 \<le> int (n_windows c te n) - 1" using assms(3) by simp
  then have "(int i + 1) * n \<le> (int (n_windows c te n) - 1) * n"
    using assms(1) by (intro mult_right_mono) simp_all
  then show ?thesis using n_windows_bounds(1) [OF assms(1,2)] by simp
qed

lemma window_at_inner:
  assumes "0 < n" "c < te" "Suc i < n_windows c te n"
  shows "window_at c te L n i = (c + (int i + 1) * n - L, c + (int i + 1) * n)"
  using stop_inner [OF assms] by (simp add: window_at_def)

lemma window_at_last:
  assumes "0 < n" "c < te" "Suc i = n_windows c te n"
  shows "window_at c te L n i = (te - L, te)"
proof -
  have "int i + 1 = int (n_windows c te n)" using assms(3) by simp
  then have "te - c \<le> (int i + 1) * n" using n_windows_bounds(2) [OF assms(1,2)] by simp
  then show ?thesis by (simp add: window_at_def)
qed

lemma n_windows_ceiling:
  "c < te \<Longrightarrow> 0 < n \<Longrightarrow> int (n_windows c te n) = \<lceil>real_of_int (te - c) / real_of_int n\<rceil>"
proof -
  assume a: "c < te" "0 < n"
  have "\<lceil>real_of_int (te - c) / real_of_int n\<rceil> = - (- (te - c) div n)"
    by (rule ceiling_divide_eq_div)
  also have "- (te - c) = c - te" by simp
  finally have "\<lceil>real_of_int (te - c) / real_of_int n\<rceil> = - ((c - te) div n)" .
  moreover have "(c - te) div n < 0" using a by (simp add: pos_imp_zdiv_neg_iff)
  ultimately show ?thesis by (simp add: n_windows_def)
qed

lemma predicted_samples_Cons:
  "predicted_samples n (w # ws) = predicted_range n w \<union> predicted_samples n ws"
  by (simp add: predicted_samples_def)

lemma predicted_samples_Nil: "predicted_samples n [] = {}"
  by (simp add: predicted_samples_def)

lemma predicted_samples_planned:
  "c < te \<Longrightarrow> 0 < n \<Longrightarrow> predicted_samples n (planned_windows c te L n) = {min c (te - n) ..< te}"
proof (induction c te L n rule: planned_windows.induct)
  case (1 c te L n)
  show ?case
  proof (cases "c + n < te")
    case True
    then have "predicted_samples n (planned_windows (c + n) te L n) = {min (c + n) (te - n) ..< te}"
      using "1.IH" "1.prems" by simp
    then show ?thesis
      using True "1.prems"
      by (auto simp: planned_windows_step [of c te n] predicted_samples_Cons predicted_range_def)
  next
    case False
    then show ?thesis
      using "1.prems"
      by (auto simp: planned_windows_step [of c te n] planned_windows_done [of "c + n"]
            predicted_samples_Cons predicted_samples_Nil predicted_range_def)
  qed
qed

lemma set_py_range: "set (py_range a b) = {a ..< b}"
  by (auto simp: py_range_def)

lemma py_range_sorted_list: "py_range a b = sorted_list_of_set {a ..< b}"
proof -
  have "sorted_list_of_set (set (py_range a b)) = py_range a b"
    by (intro sorted_list_of_set.idem_if_sorted_distinct) (simp_all add: py_range_def)
  then show ?thesis by (simp add: set_py_range)
qed

lemma set_concat_ranges:
  "set (concat (map (\<lambda>(_, stop). py_range (stop - n) stop) ws)) = predicted_samples n ws"
  by (auto simp: predicted_samples_def predicted_range_def set_py_range)

lemma unique_ranges_eq:
  "py_range a b = sort (remdups (concat (map (\<lambda>(_, stop). py_range (stop - n) stop) ws)))
     \<longleftrightarrow> predicted_samples n ws = {a ..< b}"
proof -
  have fin: "finite (predicted_samples n ws)"
    by (simp add: predicted_samples_def predicted_range_def)
  have "sort (remdups (concat (map (\<lambda>(_, stop). py_range (stop - n) stop) ws)))
          = sorted_list_of_set (set (concat (map (\<lambda>(_, stop). py_range (stop - n) stop) ws)))"
    by (rule sorted_list_of_set_sort_remdups [symmetric])
  then have eq: "sort (remdups (concat (map (\<lambda>(_, stop). py_range (stop - n) stop) ws)))
          = sorted_list_of_set (predicted_samples n ws)"
    by (simp only: set_concat_ranges)
  have lhs: "py_range a b = sorted_list_of_set {a ..< b}"
    by (rule py_range_sorted_list)
  have "sorted_list_of_set {a ..< b} = sorted_list_of_set (predicted_samples n ws)
          \<longleftrightarrow> predicted_samples n ws = {a ..< b}"
    using fin sorted_list_of_set_inject [of "{a ..< b}" "predicted_samples n ws"] by auto
  then show ?thesis by (simp only: eq lhs)
qed

lemma n_windows_div_mod:
  assumes "0 < n" "c < te"
  shows "int (n_windows c te n) = (te - c) div n + (if (te - c) mod n = 0 then 0 else 1)"
proof -
  have "c - te = - (te - c)" by simp
  then have "(c - te) div n
               = (if (te - c) mod n = 0 then - ((te - c) div n) else - ((te - c) div n) - 1)"
    using assms(1) zdiv_zminus1_eq_if [of n "te - c"] by simp
  moreover have "0 \<le> (te - c) div n"
    using assms by (simp add: pos_imp_zdiv_nonneg_iff)
  ultimately show ?thesis by (simp add: n_windows_def)
qed

lemma last_inner_stop:
  assumes "0 < n" "c < te"
  shows "c + (int (n_windows c te n) - 1) * n
           = (if (te - c) mod n = 0 then te - n else te - (te - c) mod n)"
proof -
  have dm: "(te - c) div n * n + (te - c) mod n = te - c" by simp
  show ?thesis
  proof (cases "(te - c) mod n = 0")
    case True
    then have "int (n_windows c te n) - 1 = (te - c) div n - 1"
      using n_windows_div_mod [OF assms] by simp
    then have "(int (n_windows c te n) - 1) * n = (te - c) div n * n - n"
      by (simp add: algebra_simps)
    then have "c + (int (n_windows c te n) - 1) * n = te - n"
      using dm True by linarith
    then show ?thesis using True by simp
  next
    case False
    then have "int (n_windows c te n) - 1 = (te - c) div n"
      using n_windows_div_mod [OF assms] by simp
    then have "(int (n_windows c te n) - 1) * n = (te - c) div n * n"
      by simp
    then have "c + (int (n_windows c te n) - 1) * n = te - (te - c) mod n"
      using dm by linarith
    then show ?thesis using False by simp
  qed
qed

lemma range_inner:
  assumes "0 < n" "c < te" "Suc i < n_windows c te n"
  shows "predicted_range n (window_at c te L n i) = {c + int i * n ..< c + (int i + 1) * n}"
proof -
  have "(int i + 1) * n - n = int i * n" by (simp add: algebra_simps)
  then show ?thesis
    using window_at_inner [OF assms, of L] by (simp add: predicted_range_def add_diff_eq [symmetric])
qed

lemma range_last:
  assumes "0 < n" "c < te" "Suc i = n_windows c te n"
  shows "predicted_range n (window_at c te L n i) = {te - n ..< te}"
  using window_at_last [OF assms, of L] by (simp add: predicted_range_def)

lemma inner_inner_disjoint:
  assumes "0 < n" "c < te" "i < j" "Suc j < n_windows c te n"
  shows "predicted_range n (window_at c te L n i) \<inter> predicted_range n (window_at c te L n j) = {}"
proof -
  have "(int i + 1) * n \<le> int j * n" using assms(1,3) by (intro mult_right_mono) simp_all
  moreover have "Suc i < n_windows c te n" using assms(3,4) by simp
  ultimately show ?thesis
    using range_inner [OF assms(1,2), of _ L] assms(4) by auto
qed

lemma inner_last_disjoint:
  assumes "0 < n" "c < te" "Suc (Suc i) < n_windows c te n" "Suc j = n_windows c te n"
  shows "predicted_range n (window_at c te L n i) \<inter> predicted_range n (window_at c te L n j) = {}"
proof -
  have "c + (int (Suc i) + 1) * n < te"
    using assms(1-3) by (intro stop_inner) simp_all
  moreover have "(int (Suc i) + 1) * n = (int i + 1) * n + n" by (simp add: algebra_simps)
  ultimately have "c + (int i + 1) * n \<le> te - n" by simp
  moreover have "Suc i < n_windows c te n" using assms(3) by simp
  ultimately show ?thesis
    using range_inner [OF assms(1,2), of i L] range_last [OF assms(1,2,4), of L] by auto
qed

lemma last_two_ranges:
  assumes "0 < n" "c < te" "Suc (Suc i) = n_windows c te n"
  shows "predicted_range n (window_at c te L n i) \<inter> predicted_range n (window_at c te L n (Suc i))
           = (if (te - c) mod n = 0 then {} else {te - n ..< te - (te - c) mod n})"
proof -
  have k: "int (n_windows c te n) - 1 = int i + 1" using assms(3) by (simp flip: assms(3))
  have e: "c + (int i + 1) * n = (if (te - c) mod n = 0 then te - n else te - (te - c) mod n)"
    using last_inner_stop [OF assms(1,2)] k by simp
  have m: "0 \<le> (te - c) mod n" "(te - c) mod n < n" using assms(1) by simp_all
  have "(int i + 1) * n - n = int i * n" by (simp add: algebra_simps)
  then have lo: "c + int i * n = (if (te - c) mod n = 0 then te - n - n else te - (te - c) mod n - n)"
    using e by (simp split: if_splits)
  have ri: "predicted_range n (window_at c te L n i) = {c + int i * n ..< c + (int i + 1) * n}"
    using assms by (intro range_inner) simp_all
  have rl: "predicted_range n (window_at c te L n (Suc i)) = {te - n ..< te}"
    using assms by (intro range_last) simp_all
  show ?thesis unfolding ri rl e lo using m assms(1) by auto
qed

section \<open>Claims on the window planner\<close>

text \<open>
  Claim C8 (window shape). For a trial with \<open>trial_start < trial_stop\<close> and at least one
  prediction per input, the planner returns, and every window \<open>(start, stop)\<close> it emits has
  \<open>stop - start = input_time_length\<close> and \<open>stop \<le> trial_stop\<close>. The bound
  \<open>n_preds \<le> itl\<close> of a valid call is not needed.
\<close>

theorem window_shape:
  assumes "trial_start < trial_stop" and "1 \<le> n_preds"
  shows "\<exists>ws. get_start_stop_blocks_for_trial trial_start trial_stop itl
                 n_preds = Some ws
              \<and> (\<forall>w \<in> set ws. snd w - fst w = itl \<and> snd w \<le> trial_stop)"
  using assms by (auto simp: get_blocks_closed window_at_def)

theorem window_shape_witness:
  "(40::int) < 100 \<and> (1::int) \<le> 10 \<and>
   (\<exists>ws. get_start_stop_blocks_for_trial 40 100 50 10 = Some ws
          \<and> (\<forall>w \<in> set ws. snd w - fst w = 50 \<and> snd w \<le> 100))"
  using window_shape [of 40 100 10 50] by simp

text \<open>
  Claim C9 (termination). For \<open>trial_start < trial_stop\<close> and \<open>1 \<le> n_preds\<close> the loop
  returns (the result is \<open>Some\<close>), it emits at least one window, the stop of the last
  window is \<open>trial_stop\<close>, and every window before the last stops below \<open>trial_stop\<close>:
  the loop ends with the first window whose clipped stop reaches \<open>trial_stop\<close>.
\<close>

theorem planning_terminates:
  assumes "trial_start < trial_stop" and "1 \<le> n_preds"
  shows "\<exists>ws. get_start_stop_blocks_for_trial trial_start trial_stop itl
                 n_preds = Some ws
              \<and> ws \<noteq> [] \<and> snd (last ws) = trial_stop
              \<and> (\<forall>w \<in> set (butlast ws). snd w < trial_stop)"
proof -
  let ?k = "n_windows trial_start trial_stop n_preds"
  let ?f = "window_at trial_start trial_stop itl n_preds"
  let ?ws = "map ?f [0..<?k]"
  have n: "0 < n_preds" using assms(2) by simp
  have k: "0 < ?k" using n_windows_bounds(3) [OF n assms(1)] .
  then obtain k' where k': "?k = Suc k'" by (cases ?k) simp_all
  have ne: "?ws \<noteq> []" using k by simp
  have "last ?ws = ?f k'" using k' by simp
  then have lst: "snd (last ?ws) = trial_stop"
    using window_at_last [OF n assms(1), of k' itl] k' by simp
  have "butlast ?ws = map ?f [0..<k']" using k' by (simp add: butlast_append)
  then have "\<forall>w \<in> set (butlast ?ws). snd w < trial_stop"
    using window_at_inner [OF n assms(1), of _ itl] stop_inner [OF n assms(1)] k'
    by auto
  then show ?thesis using ne lst get_blocks_closed [OF n] by blast
qed

theorem planning_terminates_witness:
  "(0::int) < 5 \<and> (1::int) \<le> 3 \<and>
   (\<exists>ws. get_start_stop_blocks_for_trial 0 5 3 3 = Some ws
          \<and> ws \<noteq> [] \<and> snd (last ws) = 5 \<and> (\<forall>w \<in> set (butlast ws). snd w < 5))"
  using planning_terminates [of 0 5 3 3] by simp

text \<open>
  Claim C10 (number and order of windows). For \<open>trial_start < trial_stop\<close> and
  \<open>1 \<le> n_preds\<close> the planner emits exactly
  \<open>\<lceil>(trial_stop - trial_start) / n_preds\<rceil>\<close> windows, and their stops increase strictly.
\<close>

theorem window_count:
  assumes "trial_start < trial_stop" and "1 \<le> n_preds"
  shows "\<exists>ws. get_start_stop_blocks_for_trial trial_start trial_stop itl
                 n_preds = Some ws
              \<and> int (length ws)
                  = \<lceil>real_of_int (trial_stop - trial_start) / real_of_int n_preds\<rceil>
              \<and> sorted_wrt (<) (map snd ws)"
proof -
  let ?k = "n_windows trial_start trial_stop n_preds"
  let ?f = "window_at trial_start trial_stop itl n_preds"
  let ?ws = "map ?f [0..<?k]"
  have n: "0 < n_preds" using assms(2) by simp
  have len: "int (length ?ws)
      = \<lceil>real_of_int (trial_stop - trial_start) / real_of_int n_preds\<rceil>"
    using n_windows_ceiling [OF assms(1) n] by simp
  have "snd (?f i) < snd (?f j)" if "i < j" "j < ?k" for i j
  proof -
    have i: "snd (?f i) = trial_start + (int i + 1) * n_preds"
      and lt: "trial_start + (int i + 1) * n_preds < trial_stop"
      using window_at_inner [OF n assms(1), of i itl] stop_inner [OF n assms(1), of i] that
      by simp_all
    have "(int i + 1) * n_preds < (int j + 1) * n_preds"
      using that(1) n by simp
    then show ?thesis using i lt by (simp add: window_at_def)
  qed
  then have "sorted_wrt (<) (map snd ?ws)"
    by (simp add: sorted_wrt_iff_nth_less)
  then show ?thesis using len get_blocks_closed [OF n] by blast
qed

theorem window_count_witness:
  "(0::int) < 5 \<and> (1::int) \<le> 3 \<and>
   (\<exists>ws. get_start_stop_blocks_for_trial 0 5 3 3 = Some ws
          \<and> int (length ws) = \<lceil>real_of_int (5 - 0) / real_of_int 3\<rceil>
          \<and> sorted_wrt (<) (map snd ws))"
  using window_count [of 0 5 3 3] by simp

text \<open>
  Claim C1 (coverage), as amended. For \<open>trial_start < trial_stop\<close> and \<open>1 \<le> n_preds\<close> the
  planner returns, and the union of the predicted ranges \<open>range(stop - n_preds, stop)\<close> of
  its windows is \<open>range(min(trial_start, trial_stop - n_preds), trial_stop)\<close>. That is
  \<open>range(trial_start, trial_stop)\<close> exactly when the trial holds at least \<open>n_preds\<close>
  samples; for a shorter trial the one window predicts samples before \<open>trial_start\<close>. The
  check of \<^verbatim>\<open>_compute_start_stop_block_inds\<close> draws the same line: it passes in the first
  case and fails its assertion in the second.
\<close>

theorem coverage:
  assumes "trial_start < trial_stop" and "1 \<le> n_preds"
  shows "\<exists>ws. get_start_stop_blocks_for_trial trial_start trial_stop itl n_preds = Some ws
              \<and> predicted_samples n_preds ws = {min trial_start (trial_stop - n_preds) ..< trial_stop}
              \<and> (predicted_samples n_preds ws = {trial_start ..< trial_stop}
                    \<longleftrightarrow> n_preds \<le> trial_stop - trial_start)
              \<and> compute_start_stop_block_inds [trial_start] [trial_stop] itl n_preds True
                  = (if n_preds \<le> trial_stop - trial_start then Some (Inr [ws])
                     else Some (Inl AssertionError))"
proof -
  let ?ws = "planned_windows trial_start trial_stop itl n_preds"
  have n: "0 < n_preds" using assms(2) by simp
  have plan: "get_start_stop_blocks_for_trial trial_start trial_stop itl n_preds = Some ?ws"
    using n by (rule get_blocks_planned)
  have un: "predicted_samples n_preds ?ws = {min trial_start (trial_stop - n_preds) ..< trial_stop}"
    using assms(1) n by (rule predicted_samples_planned)
  have iff: "predicted_samples n_preds ?ws = {trial_start ..< trial_stop}
               \<longleftrightarrow> n_preds \<le> trial_stop - trial_start"
    using assms(1) n unfolding un by (auto simp: atLeastLessThan_eq_iff min_def)
  have ne: "?ws \<noteq> []"
    using assms(1) n by (simp add: planned_windows_step [of trial_start trial_stop n_preds])
  have "compute_start_stop_block_inds [trial_start] [trial_stop] itl n_preds True
          = (if n_preds \<le> trial_stop - trial_start then Some (Inr [?ws])
             else Some (Inl AssertionError))"
    using ne iff by (simp add: plan unique_ranges_eq)
  then show ?thesis using plan un iff by blast
qed

theorem coverage_witness:
  "(40::int) < 100 \<and> (1::int) \<le> 10 \<and>
   (\<exists>ws. get_start_stop_blocks_for_trial 40 100 50 10 = Some ws
          \<and> predicted_samples 10 ws = {min 40 (100 - 10) ..< 100}
          \<and> (predicted_samples 10 ws = {40 ..< 100} \<longleftrightarrow> (10::int) \<le> 100 - 40)
          \<and> compute_start_stop_block_inds [40] [100] 50 10 True
              = (if (10::int) \<le> 100 - 40 then Some (Inr [ws]) else Some (Inl AssertionError)))"
proof -
  have h1: "(40::int) < 100" and h2: "(1::int) \<le> 10" by simp_all
  show ?thesis using h1 h2 coverage [OF h1 h2, of 50] by blast
qed

text \<open>
  The claim as stated fails for a trial shorter than \<open>n_preds\<close>: for the trial
  \<open>[0, 1)\<close> with \<open>input_time_length = n_preds = 2\<close> the only window is \<open>(-1, 1)\<close>, which
  predicts the sample \<open>-1\<close> outside the trial.
\<close>

theorem coverage_counterexample:
  "get_start_stop_blocks_for_trial 0 1 2 2 = Some [(- 1, 1)]
   \<and> predicted_samples 2 [(- 1, 1)] \<noteq> {0 ..< 1}
   \<and> compute_start_stop_block_inds [0] [1] 2 2 True = Some (Inl AssertionError)"
proof -
  have plan: "get_start_stop_blocks_for_trial 0 1 2 2 = Some [(- 1, 1)]"
    by (simp add: get_start_stop_blocks_for_trial_def blocks_loop.simps)
  have "- 1 \<in> predicted_samples 2 [(- 1, 1)]"
    by (simp add: predicted_samples_def predicted_range_def)
  then have ne: "predicted_samples 2 [(- 1, 1)] \<noteq> {0 ..< 1}" by auto
  have "compute_start_stop_block_inds [0] [1] 2 2 True = Some (Inl AssertionError)"
    by code_simp
  then show ?thesis using plan ne by simp
qed

text \<open>
  Claim C2 (boundary anchoring). For \<open>trial_start < trial_stop\<close> and \<open>1 \<le> n_preds\<close> the
  planner returns at least one window. The start of the first window is
  \<open>trial_stop - input_time_length\<close> only when \<open>trial_stop - trial_start \<le> n_preds\<close> (and then
  it is); in the general case, a trial of at least \<open>n_preds\<close> samples, the first predicted
  sample of the first window (its stop minus \<open>n_preds\<close>) is \<open>trial_start\<close> (and only in that
  case); the stop of the last window is \<open>trial_stop\<close>. Both conditions are stated as
  equivalences, which is more than the claim asks.
\<close>

theorem boundary_anchoring:
  assumes "trial_start < trial_stop" and "1 \<le> n_preds"
  shows "\<exists>ws. get_start_stop_blocks_for_trial trial_start trial_stop itl n_preds = Some ws
              \<and> ws \<noteq> []
              \<and> (fst (hd ws) = trial_stop - itl \<longleftrightarrow> trial_stop - trial_start \<le> n_preds)
              \<and> (snd (hd ws) - n_preds = trial_start \<longleftrightarrow> n_preds \<le> trial_stop - trial_start)
              \<and> snd (last ws) = trial_stop"
proof -
  let ?k = "n_windows trial_start trial_stop n_preds"
  let ?f = "window_at trial_start trial_stop itl n_preds"
  let ?ws = "map ?f [0..<?k]"
  have n: "0 < n_preds" using assms(2) by simp
  have k: "0 < ?k" using n_windows_bounds(3) [OF n assms(1)] .
  then obtain k' where k': "?k = Suc k'" by (cases ?k) simp_all
  have ne: "?ws \<noteq> []" using k by simp
  have "hd ?ws = ?f 0" using k by (simp add: hd_map hd_upt)
  then have hd: "hd ?ws = (min (trial_start + n_preds) trial_stop - itl,
                           min (trial_start + n_preds) trial_stop)"
    by (simp add: window_at_def)
  have "last ?ws = ?f k'" using k' by simp
  then have lst: "snd (last ?ws) = trial_stop"
    using window_at_last [OF n assms(1), of k' itl] k' by simp
  have a: "fst (hd ?ws) = trial_stop - itl \<longleftrightarrow> trial_stop - trial_start \<le> n_preds"
    unfolding hd by (auto simp: min_def)
  have b: "snd (hd ?ws) - n_preds = trial_start \<longleftrightarrow> n_preds \<le> trial_stop - trial_start"
    unfolding hd by (auto simp: min_def)
  show ?thesis using ne a b lst get_blocks_closed [OF n] by blast
qed

theorem boundary_anchoring_witness:
  "(0::int) < 5 \<and> (1::int) \<le> 3 \<and>
   (\<exists>ws. get_start_stop_blocks_for_trial 0 5 4 3 = Some ws
          \<and> ws \<noteq> []
          \<and> (fst (hd ws) = 5 - 4 \<longleftrightarrow> (5::int) - 0 \<le> 3)
          \<and> (snd (hd ws) - 3 = 0 \<longleftrightarrow> (3::int) \<le> 5 - 0)
          \<and> snd (last ws) = 5)"
proof -
  have h1: "(0::int) < 5" and h2: "(1::int) \<le> 3" by simp_all
  show ?thesis using h1 h2 boundary_anchoring [OF h1 h2, of 4] by blast
qed

text \<open>
  Claim C3 (overlap), as amended. A sample counts as predicted by a window when it is among
  the final \<open>n_preds\<close> samples of the window, its predicted range. For
  \<open>trial_start < trial_stop\<close> and \<open>1 \<le> n_preds\<close> the planner returns windows such that
  \<^item> the predicted ranges of any two windows other than the last two are disjoint;
  \<^item> every sample of the trial lies in the predicted range of exactly one window, unless the
    trial length is not divisible by \<open>n_preds\<close> and the sample is within \<open>n_preds\<close> of the
    end;
  \<^item> when the trial length is divisible, all predicted ranges are pairwise disjoint;
  \<^item> when it is not divisible and the trial is longer than \<open>n_preds\<close>, there are at least
    two windows and the last two overlap in the samples from \<open>trial_stop - n_preds\<close> up to the
    end of the second-to-last range: between \<open>1\<close> and \<open>n_preds - 1\<close> samples;
  \<^item> when the trial is shorter than \<open>n_preds\<close> there is one window only.
\<close>

theorem overlap_behaviour:
  assumes "trial_start < trial_stop" and "1 \<le> n_preds"
  shows "\<exists>ws. get_start_stop_blocks_for_trial trial_start trial_stop itl n_preds = Some ws
     \<and> (\<forall>i j. i < j \<and> j < length ws \<and> \<not> (Suc i = j \<and> Suc j = length ws)
            \<longrightarrow> predicted_range n_preds (ws ! i) \<inter> predicted_range n_preds (ws ! j) = {})
     \<and> (\<forall>x \<in> {trial_start ..< trial_stop}.
            (trial_stop - trial_start) mod n_preds = 0 \<or> x < trial_stop - n_preds
            \<longrightarrow> (\<exists>!i. i < length ws \<and> x \<in> predicted_range n_preds (ws ! i)))
     \<and> ((trial_stop - trial_start) mod n_preds = 0
            \<longrightarrow> (\<forall>i j. i < j \<and> j < length ws
                   \<longrightarrow> predicted_range n_preds (ws ! i) \<inter> predicted_range n_preds (ws ! j) = {}))
     \<and> ((trial_stop - trial_start) mod n_preds \<noteq> 0 \<and> n_preds < trial_stop - trial_start
            \<longrightarrow> last_two_overlap n_preds ws
                \<and> predicted_range n_preds (ws ! (length ws - 2))
                    \<inter> predicted_range n_preds (ws ! (length ws - 1))
                  = {trial_stop - n_preds ..< trial_stop - (trial_stop - trial_start) mod n_preds}
                \<and> 1 \<le> n_preds - (trial_stop - trial_start) mod n_preds
                \<and> n_preds - (trial_stop - trial_start) mod n_preds \<le> n_preds - 1)
     \<and> (trial_stop - trial_start < n_preds \<longrightarrow> length ws = 1)"
proof -
  let ?k = "n_windows trial_start trial_stop n_preds"
  let ?f = "window_at trial_start trial_stop itl n_preds"
  let ?ws = "map ?f [0..<?k]"
  let ?m = "(trial_stop - trial_start) mod n_preds"
  let ?R = "\<lambda>i. predicted_range n_preds (?ws ! i)"
  have n: "0 < n_preds" using assms(2) by simp
  note lt = assms(1)
  have len: "length ?ws = ?k" by simp
  have nth: "?ws ! i = ?f i" if "i < ?k" for i using that by simp
  have m: "0 \<le> ?m" "?m < n_preds" using n by simp_all
  have other: "?R i \<inter> ?R j = {}"
    if "i < j" "j < ?k" "\<not> (Suc i = j \<and> Suc j = ?k)" for i j
  proof (cases "Suc j < ?k")
    case True
    then show ?thesis
      using inner_inner_disjoint [OF n lt that(1) True, of itl] that nth by simp
  next
    case False
    then have j: "Suc j = ?k" using that(2) by simp
    then have "Suc (Suc i) < ?k" using that by linarith
    then show ?thesis
      using inner_last_disjoint [OF n lt _ j, of i itl] that nth by simp
  qed
  have last_two: "?R i \<inter> ?R (Suc i) = (if ?m = 0 then {} else {trial_stop - n_preds ..< trial_stop - ?m})"
    if "Suc (Suc i) = ?k" for i
    using last_two_ranges [OF n lt that, of itl] that nth by simp
  have divisible: "?R i \<inter> ?R j = {}" if "?m = 0" "i < j" "j < ?k" for i j
  proof (cases "Suc i = j \<and> Suc j = ?k")
    case True
    then show ?thesis using last_two [of i] that(1) by auto
  next
    case False
    then show ?thesis using other that by blast
  qed
  have single: "?k = 1" if "trial_stop - trial_start < n_preds"
  proof -
    have "(trial_stop - trial_start) div n_preds = 0" "?m = trial_stop - trial_start"
      using that lt by simp_all
    then have "int ?k = 1" using n_windows_div_mod [OF n lt] lt by simp
    then show ?thesis by simp
  qed
  have overlap: "2 \<le> ?k \<and> ?R (?k - 2) \<inter> ?R (?k - 1) = {trial_stop - n_preds ..< trial_stop - ?m}"
    if "?m \<noteq> 0" "n_preds < trial_stop - trial_start"
  proof -
    have "0 < (trial_stop - trial_start) div n_preds"
      using that(2) n by (simp add: pos_imp_zdiv_pos_iff)
    then have "2 \<le> int ?k" using n_windows_div_mod [OF n lt] that(1) by simp
    then have two: "2 \<le> ?k" by simp
    then have "Suc (Suc (?k - 2)) = ?k" "Suc (?k - 2) = ?k - 1" by simp_all
    then show ?thesis using last_two [of "?k - 2"] that(1) two by simp
  qed
  have cover: "predicted_samples n_preds ?ws = {min trial_start (trial_stop - n_preds) ..< trial_stop}"
    using predicted_samples_planned [OF lt n, of itl] planned_windows_closed [OF n, of trial_start trial_stop itl]
    by simp
  have unique: "\<exists>!i. i < ?k \<and> x \<in> ?R i"
    if x: "trial_start \<le> x" "x < trial_stop" and c: "?m = 0 \<or> x < trial_stop - n_preds" for x
  proof -
    have "x \<in> predicted_samples n_preds ?ws" unfolding cover using x by simp
    then obtain w where "w \<in> set ?ws" "x \<in> predicted_range n_preds w"
      unfolding predicted_samples_def by blast
    then obtain i where i: "i < ?k" "x \<in> ?R i"
      using len by (metis in_set_conv_nth)
    have False if ij: "i' < j'" "j' < ?k" "x \<in> ?R i'" "x \<in> ?R j'" for i' j'
    proof (cases "Suc i' = j' \<and> Suc j' = ?k")
      case False
      then show False using other [OF ij(1,2)] ij(3,4) by blast
    next
      case True
      show False
      proof (cases "?m = 0")
        case True
        then show False using divisible [OF True ij(1,2)] ij(3,4) by blast
      next
        case False
        then have "x < trial_stop - n_preds" using c by simp
        moreover have "?R j' = {trial_stop - n_preds ..< trial_stop}"
          using range_last [OF n lt, of j' itl] True nth [OF ij(2)] by simp
        ultimately show False using ij(4) by simp
      qed
    qed
    then have "j = i" if "j < ?k" "x \<in> ?R j" for j
      using that i by (metis linorder_neqE_nat)
    then show ?thesis using i by blast
  qed
  have plan: "get_start_stop_blocks_for_trial trial_start trial_stop itl n_preds = Some ?ws"
    using n by (rule get_blocks_closed)
  have A: "\<forall>i j. i < j \<and> j < length ?ws \<and> \<not> (Suc i = j \<and> Suc j = length ?ws)
            \<longrightarrow> ?R i \<inter> ?R j = {}"
  proof (intro impI allI)
    fix i j
    assume "i < j \<and> j < length ?ws \<and> \<not> (Suc i = j \<and> Suc j = length ?ws)"
    then show "?R i \<inter> ?R j = {}" using other [of i j] by simp
  qed
  have U: "\<forall>x \<in> {trial_start ..< trial_stop}. ?m = 0 \<or> x < trial_stop - n_preds
            \<longrightarrow> (\<exists>!i. i < length ?ws \<and> x \<in> ?R i)"
  proof (intro ballI impI)
    fix x
    assume "x \<in> {trial_start ..< trial_stop}" and "?m = 0 \<or> x < trial_stop - n_preds"
    then have "\<exists>!i. i < ?k \<and> x \<in> ?R i" using unique [of x] by simp
    then show "\<exists>!i. i < length ?ws \<and> x \<in> ?R i" by (simp only: len)
  qed
  have D: "?m = 0 \<longrightarrow> (\<forall>i j. i < j \<and> j < length ?ws \<longrightarrow> ?R i \<inter> ?R j = {})"
  proof (intro impI allI)
    fix i j
    assume "?m = 0" and "i < j \<and> j < length ?ws"
    then show "?R i \<inter> ?R j = {}" using divisible [of i j] by simp
  qed
  have O: "?m \<noteq> 0 \<and> n_preds < trial_stop - trial_start
            \<longrightarrow> last_two_overlap n_preds ?ws
                \<and> ?R (length ?ws - 2) \<inter> ?R (length ?ws - 1) = {trial_stop - n_preds ..< trial_stop - ?m}
                \<and> 1 \<le> n_preds - ?m \<and> n_preds - ?m \<le> n_preds - 1"
  proof (intro impI)
    assume a: "?m \<noteq> 0 \<and> n_preds < trial_stop - trial_start"
    then have ov: "2 \<le> ?k \<and> ?R (?k - 2) \<inter> ?R (?k - 1) = {trial_stop - n_preds ..< trial_stop - ?m}"
      using overlap by blast
    then have ov': "2 \<le> length ?ws
        \<and> ?R (length ?ws - 2) \<inter> ?R (length ?ws - 1) = {trial_stop - n_preds ..< trial_stop - ?m}"
      by (simp only: len)
    have b: "1 \<le> n_preds - ?m \<and> n_preds - ?m \<le> n_preds - 1" using a m by linarith
    then have "{trial_stop - n_preds ..< trial_stop - ?m} \<noteq> {}" by simp
    then have "last_two_overlap n_preds ?ws"
      unfolding last_two_overlap_def using ov' by (simp only:) simp
    then show "last_two_overlap n_preds ?ws
                \<and> ?R (length ?ws - 2) \<inter> ?R (length ?ws - 1) = {trial_stop - n_preds ..< trial_stop - ?m}
                \<and> 1 \<le> n_preds - ?m \<and> n_preds - ?m \<le> n_preds - 1"
      using ov' b by (intro conjI) (simp_all only:)
  qed
  have S: "trial_stop - trial_start < n_preds \<longrightarrow> length ?ws = 1"
    using single by (simp only: len) blast
  show ?thesis
    by (rule exI [of _ ?ws]) (intro conjI plan A U D O S)
qed

theorem overlap_behaviour_witness:
  "(0::int) < 5 \<and> (1::int) \<le> 3 \<and>
   (\<exists>ws. get_start_stop_blocks_for_trial 0 5 3 3 = Some ws
     \<and> (\<forall>i j. i < j \<and> j < length ws \<and> \<not> (Suc i = j \<and> Suc j = length ws)
            \<longrightarrow> predicted_range 3 (ws ! i) \<inter> predicted_range 3 (ws ! j) = {})
     \<and> (\<forall>x \<in> {0 ..< 5}.
            (5 - 0) mod 3 = (0::int) \<or> x < 5 - 3
            \<longrightarrow> (\<exists>!i. i < length ws \<and> x \<in> predicted_range 3 (ws ! i)))
     \<and> ((5 - 0) mod 3 = (0::int)
            \<longrightarrow> (\<forall>i j. i < j \<and> j < length ws
                   \<longrightarrow> predicted_range 3 (ws ! i) \<inter> predicted_range 3 (ws ! j) = {}))
     \<and> ((5 - 0) mod 3 \<noteq> (0::int) \<and> (3::int) < 5 - 0
            \<longrightarrow> last_two_overlap 3 ws
                \<and> predicted_range 3 (ws ! (length ws - 2))
                    \<inter> predicted_range 3 (ws ! (length ws - 1))
                  = {5 - 3 ..< 5 - (5 - 0) mod 3}
                \<and> 1 \<le> 3 - (5 - 0) mod (3::int)
                \<and> 3 - (5 - 0) mod 3 \<le> (3::int) - 1)
     \<and> ((5::int) - 0 < 3 \<longrightarrow> length ws = 1))"
proof -
  have h1: "(0::int) < 5" and h2: "(1::int) \<le> 3" by simp_all
  show ?thesis by (intro conjI h1 h2 overlap_behaviour [OF h1 h2])
qed

text \<open>
  The claim as stated fails for a trial shorter than \<open>n_preds\<close>: the length of the trial
  \<open>[0, 1)\<close> is not divisible by \<open>n_preds = 2\<close>, but the planner emits the single window
  \<open>(-1, 1)\<close>, so no second-to-last window exists that the last one could overlap.
\<close>

theorem overlap_behaviour_counterexample:
  "get_start_stop_blocks_for_trial 0 1 2 2 = Some [(- 1, 1)]
   \<and> (1 - 0) mod 2 \<noteq> (0 :: int)
   \<and> \<not> last_two_overlap 2 [(- 1, 1)]"
  by (simp add: get_start_stop_blocks_for_trial_def blocks_loop.simps last_two_overlap_def)

section \<open>The partitioner and the iterator\<close>

lemma mset_rotate_list: "mset (rotate k xs) = mset xs"
proof -
  have "mset (drop (k mod length xs) xs @ take (k mod length xs) xs)
          = mset (take (k mod length xs) xs @ drop (k mod length xs) xs)"
    by (simp only: mset_append union_commute)
  then show ?thesis by (simp add: rotate_drop_take)
qed

lemma concat_blocks:
  "concat (map (\<lambda>i. take b (drop (i * b) xs)) [0..<q]) = take (q * b) xs"
proof (induction q)
  case 0
  then show ?case by simp
next
  case (Suc q)
  have "take (q * b) xs @ take b (drop (q * b) xs) = take (q * b + b) xs"
    by (simp add: take_add)
  then show ?case using Suc by (simp add: add.commute)
qed

lemma n_groups_bounds:
  fixes n b :: nat
  assumes "0 < b"
  shows "n \<le> (n + b - 1) div b * b"
    and "0 < n \<Longrightarrow> ((n + b - 1) div b - 1) * b < n"
    and "(n + b - 1) div b = 0 \<longleftrightarrow> n = 0"
proof -
  define q where "q = (n + b - 1) div b"
  define r where "r = (n + b - 1) mod b"
  have qr: "q * b + r = n + b - 1" unfolding q_def r_def by simp
  have r: "r < b" using assms unfolding r_def by simp
  show "n \<le> (n + b - 1) div b * b" using qr r unfolding q_def [symmetric] by linarith
  show "((n + b - 1) div b - 1) * b < n" if "0 < n"
  proof -
    have "(q - 1) * b = q * b - b" by (simp add: diff_mult_distrib)
    then show ?thesis using qr r that unfolding q_def [symmetric] by linarith
  qed
  show "(n + b - 1) div b = 0 \<longleftrightarrow> n = 0"
    using assms by (auto simp: div_eq_0_iff)
qed

lemma n_groups_ceiling:
  fixes n :: nat and bs :: int
  assumes "1 \<le> bs"
  shows "int ((n + nat bs - 1) div nat bs) = \<lceil>real n / real_of_int bs\<rceil>"
proof -
  define d where "d = int n div bs"
  define m where "m = int n mod bs"
  have dm: "int n = bs * d + m" unfolding d_def m_def by simp
  have m: "0 \<le> m" "m < bs" using assms unfolding m_def by simp_all
  have "int ((n + nat bs - 1) div nat bs) = (int n + bs - 1) div bs"
    using assms by (simp add: zdiv_int of_nat_diff)
  also have "\<dots> = (if m = 0 then d else d + 1)"
  proof (cases "m = 0")
    case True
    have "int n + bs - 1 = bs * d + (bs - 1)" using dm True by simp
    then have "(int n + bs - 1) div bs = d"
      using assms by (intro int_div_pos_eq [where r = "bs - 1"]) simp_all
    then show ?thesis using True by simp
  next
    case False
    have "int n + bs - 1 = bs * (d + 1) + (m - 1)" using dm by (simp add: algebra_simps)
    then have "(int n + bs - 1) div bs = d + 1"
      using m False by (intro int_div_pos_eq [where r = "m - 1"]) simp_all
    then show ?thesis using False by simp
  qed
  also have "\<dots> = - ((- int n) div bs)"
    using assms zdiv_zminus1_eq_if [of bs "int n"] unfolding d_def m_def by simp
  also have "\<dots> = \<lceil>real_of_int (int n) / real_of_int bs\<rceil>"
    by (simp only: ceiling_divide_eq_div)
  finally show ?thesis by simp
qed

lemma get_balanced_batches_groups:
  "fst (get_balanced_batches np n_items bs g shuffle)
     = map (\<lambda>i. take (nat bs) (drop (i * nat bs)
                (if shuffle then fst (rng_shuffle np g [0..<n_items]) else [0..<n_items])))
         [0..<(n_items + nat bs - 1) div nat bs]"
  by (cases "rng_shuffle np g [0..<n_items]") (simp add: get_balanced_batches_def Let_def)

lemma check_input_lens_short:
  "\<exists>l \<in> set lens. l < itl \<Longrightarrow>
   \<exists>i. i < length lens \<and> lens ! i < itl \<and> (\<forall>j<i. itl \<le> lens ! j)
       \<and> check_input_lens k lens itl = Some (InputLengthAssertion (lens ! i) (k + i) itl)"
proof (induction lens arbitrary: k)
  case Nil
  then show ?case by simp
next
  case (Cons l ls)
  show ?case
  proof (cases "l < itl")
    case True
    then have "0 < length (l # ls) \<and> (l # ls) ! 0 < itl \<and> (\<forall>j<0. itl \<le> (l # ls) ! j)
       \<and> check_input_lens k (l # ls) itl = Some (InputLengthAssertion ((l # ls) ! 0) (k + 0) itl)"
      by simp
    then show ?thesis by blast
  next
    case False
    then have "\<exists>l \<in> set ls. l < itl" using Cons.prems by auto
    then obtain i where i: "i < length ls" "ls ! i < itl" "\<forall>j<i. itl \<le> ls ! j"
      "check_input_lens (Suc k) ls itl = Some (InputLengthAssertion (ls ! i) (Suc k + i) itl)"
      using Cons.IH [of "Suc k"] by blast
    have "\<forall>j<Suc i. itl \<le> (l # ls) ! j"
      using False i(3) by (auto simp: nth_Cons split: nat.splits)
    then have "Suc i < length (l # ls) \<and> (l # ls) ! Suc i < itl \<and> (\<forall>j<Suc i. itl \<le> (l # ls) ! j)
       \<and> check_input_lens k (l # ls) itl
           = Some (InputLengthAssertion ((l # ls) ! Suc i) (k + Suc i) itl)"
      using False i by simp
    then show ?thesis by blast
  qed
qed

lemma yield_block_batches_frame:
  "yield_block_batches np self gen = (out, self') \<Longrightarrow> self' = self\<lparr>rng := rng self'\<rparr>"
  by (auto simp: yield_block_batches_def Let_def split: prod.splits)

lemma batches_of_call_frame:
  "batches_of_call np self dataset shuffle = Some (r, self') \<Longrightarrow> self' = self\<lparr>rng := rng self'\<rparr>"
  by (auto simp: batches_of_call_def Let_def dest: yield_block_batches_frame
      split: option.splits sum.splits prod.splits)

lemma batches_of_calls_frame:
  "batches_of_calls np self calls = Some (rs, self') \<Longrightarrow> self' = self\<lparr>rng := rng self'\<rparr>"
proof (induction calls arbitrary: self rs)
  case Nil
  then show ?case by simp
next
  case (Cons call calls)
  obtain dataset shuffle where call: "call = (dataset, shuffle)" by (cases call)
  from Cons.prems obtain r self1 rs' where
    s1: "batches_of_call np self dataset shuffle = Some (r, self1)" and
    s2: "batches_of_calls np self1 calls = Some (rs', self')"
    by (auto simp: call split: option.splits prod.splits)
  have "self1 = self\<lparr>rng := rng self1\<rparr>" using s1 by (rule batches_of_call_frame)
  moreover have "self' = self1\<lparr>rng := rng self'\<rparr>" using s2 by (rule Cons.IH)
  ultimately show ?case by (metis crops_iterator.update_convs(5) crops_iterator.surjective crops_iterator.select_convs)
qed

lemma fresh_iterator_eq:
  fixes a b :: "'g crops_iterator"
  assumes "batch_size b = batch_size a" "input_time_length b = input_time_length a"
    "n_preds_per_input b = n_preds_per_input a" "seed b = seed a"
    "rng a = RandomState np (seed a)" "rng b = RandomState np (seed b)"
  shows "b = a"
  using assms by (intro crops_iterator.equality) simp_all

lemma check_input_lens_ok:
  "\<forall>l \<in> set lens. itl \<le> l \<Longrightarrow> check_input_lens k lens itl = None"
  by (induction lens arbitrary: k) simp_all

lemma planned_windows_nonempty: "c < te \<Longrightarrow> 0 < n \<Longrightarrow> planned_windows c te L n \<noteq> []"
  by (simp add: planned_windows_step)

lemma planned_windows_hd:
  "c < te \<Longrightarrow> 0 < n \<Longrightarrow> hd (planned_windows c te L n) = (min (c + n) te - L, min (c + n) te)"
  by (simp add: planned_windows_step)

lemma planned_windows_last:
  assumes "c < te" "0 < n"
  shows "snd (last (planned_windows c te L n)) = te"
proof -
  obtain k' where k': "n_windows c te n = Suc k'"
    using n_windows_bounds(3) [OF assms(2,1)] by (cases "n_windows c te n") simp_all
  then have "last (planned_windows c te L n) = window_at c te L n k'"
    using assms(2) by (simp add: planned_windows_closed)
  then show ?thesis using window_at_last [OF assms(2,1), of k' L] k' by simp
qed

lemma compute_start_stop_block_inds_ok:
  assumes "0 < n" and "\<forall>e \<in> set stops. n \<le> e - ts"
  shows "compute_start_stop_block_inds (replicate (length stops) ts) stops L n True
           = Some (Inr (map (\<lambda>e. planned_windows ts e L n) stops))"
  using assms(2)
proof (induction stops)
  case Nil
  then show ?case by simp
next
  case (Cons e stops)
  have lt: "ts < e" using Cons.prems assms(1) by simp
  have "predicted_samples n (planned_windows ts e L n) = {min ts (e - n) ..< e}"
    using lt assms(1) by (rule predicted_samples_planned)
  also have "min ts (e - n) = ts" using Cons.prems by simp
  finally have eq: "py_range ts e
      = sort (remdups (concat (map (\<lambda>(_, stop). py_range (stop - n) stop) (planned_windows ts e L n))))"
    by (simp only: unique_ranges_eq)
  have ne: "planned_windows ts e L n \<noteq> []" using lt assms(1) by (rule planned_windows_nonempty)
  have rest: "compute_start_stop_block_inds (replicate (length stops) ts) stops L n True
           = Some (Inr (map (\<lambda>e. planned_windows ts e L n) stops))"
    using Cons by simp
  show ?case
    using eq ne rest by (simp add: get_blocks_planned [OF assms(1)])
qed

lemma check_trial_blocks_ok:
  assumes "0 < n" and "\<forall>e \<in> set stops. L \<le> e"
  shows "check_trial_blocks (map (\<lambda>e. planned_windows (L - n) e L n) stops) stops = None"
  using assms(2)
proof (induction stops)
  case Nil
  then show ?case by simp
next
  case (Cons e stops)
  have lt: "L - n < e" using Cons.prems assms(1) by simp
  have "fst (hd (planned_windows (L - n) e L n)) = 0"
    using planned_windows_hd [OF lt assms(1), of L] Cons.prems by simp
  moreover have "snd (last (planned_windows (L - n) e L n)) = e"
    using lt assms(1) by (rule planned_windows_last)
  moreover have "planned_windows (L - n) e L n \<noteq> []"
    using lt assms(1) by (rule planned_windows_nonempty)
  ultimately show ?case using Cons by simp
qed

text \<open>
  Under the precondition of \<^verbatim>\<open>get_batches\<close> (every trial at least \<open>input_time_length\<close>
  long, at least one prediction per input) no assertion of the call fails: every trial is
  planned from \<open>input_time_length - n_preds_per_input\<close> on, where it holds at least
  \<open>n_preds_per_input\<close> samples, the coverage check passes, the first window starts at \<open>0\<close>
  and the last stops at the end of the trial. The call returns the generator over these
  windows.
\<close>

theorem get_batches_returns:
  assumes "1 \<le> n_preds_per_input self"
    and "\<forall>trial \<in> set (X dataset). input_time_length self \<le> int (length trial)"
  shows "get_batches self dataset shuffle
           = Some (Inr \<lparr>gen_X = X dataset, gen_y = y dataset,
                gen_start_stop_blocks_per_trial =
                  map (\<lambda>trial. planned_windows (input_time_length self - n_preds_per_input self)
                                 (int (length trial)) (input_time_length self)
                                 (n_preds_per_input self)) (X dataset),
                gen_shuffle = shuffle\<rparr>)"
proof -
  let ?L = "input_time_length self"
  let ?n = "n_preds_per_input self"
  let ?stops = "map (\<lambda>trial. int (length trial)) (X dataset)"
  have n: "0 < ?n" using assms(1) by simp
  have ok: "\<forall>e \<in> set ?stops. ?L \<le> e" using assms(2) by simp
  then have ok': "\<forall>e \<in> set ?stops. ?n \<le> e - (?L - ?n)" by simp
  have a: "check_input_lens 0 ?stops ?L = None" using ok by (rule check_input_lens_ok)
  have b: "compute_start_stop_block_inds (replicate (length ?stops) (?L - ?n)) ?stops ?L ?n True
           = Some (Inr (map (\<lambda>e. planned_windows (?L - ?n) e ?L ?n) ?stops))"
    using n ok' by (rule compute_start_stop_block_inds_ok)
  have c: "check_trial_blocks (map (\<lambda>e. planned_windows (?L - ?n) e ?L ?n) ?stops) ?stops = None"
    using n ok by (rule check_trial_blocks_ok)
  let ?blocks = "map (\<lambda>trial. planned_windows (?L - ?n) (int (length trial)) ?L ?n) (X dataset)"
  have m: "map (\<lambda>e. planned_windows (?L - ?n) e ?L ?n) ?stops = ?blocks"
    by (simp add: comp_def)
  have b': "compute_start_stop_block_inds (replicate (length (X dataset)) (?L - ?n + 1 - 1))
              ?stops ?L ?n True = Some (Inr ?blocks)"
    using b unfolding m by simp
  have c': "check_trial_blocks ?blocks ?stops = None"
    using c unfolding m .
  show ?thesis
    unfolding get_batches_def Let_def by (simp only: a b' c' option.case sum.case)
qed

text \<open>
  On the index array of an empty block list (one row without entries) the generator ends in
  an error whatever the groups are, as soon as one of them holds an index: a valid index
  selects the empty row, which cannot be unpacked.
\<close>

lemma empty_rows_raise:
  "rows \<noteq> [] \<Longrightarrow> \<forall>row \<in> set rows. row = [] \<Longrightarrow>
   create_batch_from_i_trial_start_stop_blocks Xd yd rows n = Inl ValueError"
  by (cases rows) simp_all

lemma empty_array_raises:
  "\<exists>i_blocks \<in> set blocks_per_batch. i_blocks \<noteq> [] \<Longrightarrow>
   snd (yield_batches Xd yd [[]] n blocks_per_batch) \<noteq> None"
proof (induction blocks_per_batch)
  case Nil
  then show ?case by simp
next
  case (Cons i_blocks blocks_per_batch)
  show ?case
  proof (cases "i_blocks = []")
    case True
    then have "\<exists>i_blocks \<in> set blocks_per_batch. i_blocks \<noteq> []" using Cons.prems by simp
    then have "snd (yield_batches Xd yd [[]] n blocks_per_batch) \<noteq> None" by (rule Cons.IH)
    then show ?thesis using True by (auto simp: index_rows_def split: prod.splits)
  next
    case False
    show ?thesis
    proof (cases "\<forall>i \<in> set i_blocks. i < length [[] :: int list]")
      case True
      then have "create_batch_from_i_trial_start_stop_blocks Xd yd (map (\<lambda>i. [[]] ! i) i_blocks) n
                   = Inl ValueError"
        using False by (intro empty_rows_raise) auto
      then show ?thesis using True by (simp add: index_rows_def)
    next
      case False
      then have "index_rows [[]] i_blocks = Inl IndexError" by (simp only: index_rows_def if_False)
      then show ?thesis by simp
    qed
  qed
qed

section \<open>Claims on the iterator\<close>

text \<open>
  Claim C4 (partition completeness and balance), for the partitioner as the specification
  describes it. For \<open>batch_size \<ge> 1\<close>, with or without shuffling (a shuffle returning a
  permutation of the indices), the partitioner produces \<open>\<lceil>n_items / batch_size\<rceil>\<close> groups;
  every group but the last has exactly \<open>batch_size\<close> indices, so these sizes differ by at
  most one, and the last has between one and \<open>batch_size\<close>; the groups together hold every
  index below \<open>n_items\<close> exactly once and nothing else; no items give no groups.
\<close>

theorem partition_complete_balanced:
  assumes "1 \<le> bs"
    and "shuffle \<Longrightarrow> mset (fst (rng_shuffle np g [0..<n_items])) = mset [0..<n_items]"
  shows "\<exists>groups. fst (get_balanced_batches np n_items bs g shuffle) = groups
     \<and> int (length groups) = \<lceil>real n_items / real_of_int bs\<rceil>
     \<and> (\<forall>i. Suc i < length groups \<longrightarrow> length (groups ! i) = nat bs)
     \<and> (\<forall>i j. Suc i < length groups \<and> Suc j < length groups
            \<longrightarrow> \<bar>int (length (groups ! i)) - int (length (groups ! j))\<bar> \<le> 1)
     \<and> (groups \<noteq> [] \<longrightarrow> 1 \<le> length (last groups) \<and> length (last groups) \<le> nat bs)
     \<and> distinct (concat groups) \<and> set (concat groups) = {0..<n_items}
     \<and> (n_items = 0 \<longrightarrow> groups = [])"
proof -
  define inds where
    "inds = (if shuffle then fst (rng_shuffle np g [0..<n_items]) else [0..<n_items])"
  define b where "b = nat bs"
  define q where "q = (n_items + b - 1) div b"
  define groups where "groups = map (\<lambda>i. take b (drop (i * b) inds)) [0..<q]"
  have b: "0 < b" using assms(1) by (simp add: b_def)
  have perm: "mset inds = mset [0..<n_items]"
    using assms(2) by (simp add: inds_def)
  have len_inds: "length inds = n_items" using mset_eq_length [OF perm] by simp
  have set_inds: "set inds = {0..<n_items}" using mset_eq_setD [OF perm] by simp
  have dist_inds: "distinct inds" using mset_eq_imp_distinct_iff [OF perm] by simp
  have g: "fst (get_balanced_batches np n_items bs g shuffle) = groups"
    by (simp only: get_balanced_batches_groups groups_def inds_def b_def q_def)
  have len: "length groups = q" by (simp add: groups_def)
  have nth: "groups ! i = take b (drop (i * b) inds)" if "i < q" for i
    using that by (simp add: groups_def)
  have count: "int (length groups) = \<lceil>real n_items / real_of_int bs\<rceil>"
    using n_groups_ceiling [OF assms(1), of n_items] by (simp add: len q_def b_def)
  have full: "length (groups ! i) = b" if "Suc i < q" for i
  proof -
    have "0 < n_items" using that n_groups_bounds(3) [OF b, of n_items] by (auto simp: q_def)
    then have "(q - 1) * b < n_items" using n_groups_bounds(2) [OF b] by (simp add: q_def)
    moreover have "Suc i * b \<le> (q - 1) * b" using that by (intro mult_le_mono1) simp
    ultimately have "i * b + b \<le> n_items" by simp
    then show ?thesis using that by (simp add: nth len_inds)
  qed
  have fin: "1 \<le> length (last groups) \<and> length (last groups) \<le> b" if "groups \<noteq> []"
  proof -
    have q: "0 < q" using that len by (cases q) auto
    then have "0 < n_items" using n_groups_bounds(3) [OF b, of n_items] by (auto simp: q_def)
    then have lt: "(q - 1) * b < n_items" using n_groups_bounds(2) [OF b] by (simp add: q_def)
    have "last groups = groups ! (q - 1)" using that len by (simp add: last_conv_nth)
    also have "\<dots> = take b (drop ((q - 1) * b) inds)" using q by (intro nth) simp
    finally show ?thesis using lt b by (simp add: len_inds)
  qed
  have "concat groups = take (q * b) inds" by (simp add: groups_def concat_blocks)
  also have "\<dots> = inds" using n_groups_bounds(1) [OF b, of n_items] by (simp add: len_inds q_def)
  finally have cc: "concat groups = inds" .
  have empty: "groups = []" if "n_items = 0"
    using that len n_groups_bounds(3) [OF b, of n_items] by (simp add: q_def)
  have B: "\<forall>i. Suc i < length groups \<longrightarrow> length (groups ! i) = nat bs"
    using full by (simp add: len b_def)
  have C: "\<forall>i j. Suc i < length groups \<and> Suc j < length groups
            \<longrightarrow> \<bar>int (length (groups ! i)) - int (length (groups ! j))\<bar> \<le> 1"
    using B by simp
  have D: "groups \<noteq> [] \<longrightarrow> 1 \<le> length (last groups) \<and> length (last groups) \<le> nat bs"
    using fin by (simp add: b_def)
  have E: "distinct (concat groups)" "set (concat groups) = {0..<n_items}"
    using cc dist_inds set_inds by simp_all
  have F: "n_items = 0 \<longrightarrow> groups = []" using empty by simp
  show ?thesis
    by (rule exI [of _ groups]) (intro conjI g count B C D E F)
qed

theorem partition_complete_balanced_witness:
  "(1::int) \<le> 3
   \<and> mset (fst (rng_shuffle example_random 2 [0..<7])) = mset [0..<7]
   \<and> (\<exists>groups. fst (get_balanced_batches example_random 7 3 2 True) = groups
     \<and> int (length groups) = \<lceil>real 7 / real_of_int 3\<rceil>
     \<and> (\<forall>i. Suc i < length groups \<longrightarrow> length (groups ! i) = nat 3)
     \<and> (\<forall>i j. Suc i < length groups \<and> Suc j < length groups
            \<longrightarrow> \<bar>int (length (groups ! i)) - int (length (groups ! j))\<bar> \<le> 1)
     \<and> (groups \<noteq> [] \<longrightarrow> 1 \<le> length (last groups) \<and> length (last groups) \<le> nat 3)
     \<and> distinct (concat groups) \<and> set (concat groups) = {0..<7}
     \<and> ((7::nat) = 0 \<longrightarrow> groups = []))"
proof -
  have h1: "(1::int) \<le> 3" by simp
  have h2: "mset (fst (rng_shuffle example_random 2 [0..<7])) = mset [0..<7]"
    by (simp add: example_random_def mset_rotate_list)
  show ?thesis
    by (intro conjI h1 h2 partition_complete_balanced [OF h1 h2])
qed

text \<open>
  Claim C5 (empty dataset) against the code. On a dataset without trials the call of
  \<^verbatim>\<open>get_batches\<close> succeeds, but the empty index array is reshaped to one row without
  entries, so the partitioner is asked for one item and the first batch is built from that
  row: unpacking it into \<^verbatim>\<open>i_trial, start, stop\<close> raises \<^verbatim>\<open>ValueError\<close>. Consuming the
  generator yields no batch and ends in that error.
\<close>

theorem empty_dataset_raises:
  "batches_of_call np (init_iterator np 4 50 10 [2017, 6, 28]) \<lparr>X = [], y = []\<rparr> False
     = Some (Inr ([], Some ValueError), init_iterator np 4 50 10 [2017, 6, 28])"
  by (simp add: batches_of_call_def get_batches_def yield_block_batches_def flatten_blocks_def
        get_balanced_batches_def index_rows_def init_iterator_def enumerate_eq_zip)

text \<open>
  Claim C6 (short trial). If some trial is shorter than \<open>input_time_length\<close>, the call of
  \<^verbatim>\<open>get_batches\<close> itself ends in the assertion error that carries the length and the index
  of the first such trial and the required length; no generator is returned, so no batch is
  produced and the generator state of the iterator stays as it was.
\<close>

theorem short_trial_fails:
  assumes "\<exists>trial \<in> set (X dataset). int (length trial) < input_time_length self"
  shows "\<exists>i. i < length (X dataset)
            \<and> int (length (X dataset ! i)) < input_time_length self
            \<and> (\<forall>j<i. input_time_length self \<le> int (length (X dataset ! j)))
            \<and> get_batches self dataset shuffle
                = Some (Inl (InputLengthAssertion (int (length (X dataset ! i))) i
                               (input_time_length self)))
            \<and> batches_of_call np self dataset shuffle
                = Some (Inl (InputLengthAssertion (int (length (X dataset ! i))) i
                               (input_time_length self)), self)"
proof -
  let ?lens = "map (\<lambda>trial. int (length trial)) (X dataset)"
  have "\<exists>l \<in> set ?lens. l < input_time_length self" using assms by simp
  then obtain i where i: "i < length ?lens" "?lens ! i < input_time_length self"
    "\<forall>j<i. input_time_length self \<le> ?lens ! j"
    "check_input_lens 0 ?lens (input_time_length self)
       = Some (InputLengthAssertion (?lens ! i) (0 + i) (input_time_length self))"
    using check_input_lens_short [of ?lens "input_time_length self" 0] by blast
  have gb: "get_batches self dataset shuffle
          = Some (Inl (InputLengthAssertion (int (length (X dataset ! i))) i (input_time_length self)))"
    using i(1,4) by (simp add: get_batches_def)
  then have "batches_of_call np self dataset shuffle
          = Some (Inl (InputLengthAssertion (int (length (X dataset ! i))) i (input_time_length self)), self)"
    by (simp add: batches_of_call_def)
  then show ?thesis using i(1,2,3) gb by auto
qed

theorem short_trial_fails_witness:
  "(\<exists>trial \<in> set (X \<lparr>X = [[1, 2, 3], [4, 5 :: nat]], y = [Scalar (0 :: nat), Scalar 1]\<rparr>).
      int (length trial) < input_time_length (init_iterator example_random 2 3 2 [2017, 6, 28]))
   \<and> get_batches (init_iterator example_random 2 3 2 [2017, 6, 28])
         \<lparr>X = [[1, 2, 3], [4, 5 :: nat]], y = [Scalar (0 :: nat), Scalar 1]\<rparr> True
       = Some (Inl (InputLengthAssertion 2 1 3))"
proof -
  let ?ds = "\<lparr>X = [[1, 2, 3], [4, 5 :: nat]], y = [Scalar (0 :: nat), Scalar 1]\<rparr>"
  let ?it = "init_iterator example_random 2 3 2 [2017, 6, 28]"
  have h: "\<exists>trial \<in> set (X ?ds). int (length trial) < input_time_length ?it"
    by (simp add: init_iterator_def)
  obtain i where i: "i < length (X ?ds)" "int (length (X ?ds ! i)) < input_time_length ?it"
    "\<forall>j<i. input_time_length ?it \<le> int (length (X ?ds ! j))"
    "get_batches ?it ?ds True
       = Some (Inl (InputLengthAssertion (int (length (X ?ds ! i))) i (input_time_length ?it)))"
    using short_trial_fails [OF h, of True example_random] by blast
  have "i = 1" using i(1,2) by (auto simp: init_iterator_def less_Suc_eq)
  then show ?thesis using h i(4) by (simp add: init_iterator_def)
qed

text \<open>
  Claim C7 (determinism). Two iterators with the same batch size, input length, predictions
  per input and seed, both fresh (their generator state made from their seed), give the same
  results on the same sequence of calls; and after that sequence of calls, \<^verbatim>\<open>reset_rng\<close>
  followed by the same calls gives the same results again.
\<close>

theorem determinism:
  fixes a b :: "'g crops_iterator"
  assumes "batch_size b = batch_size a" and "input_time_length b = input_time_length a"
    and "n_preds_per_input b = n_preds_per_input a" and "seed b = seed a"
    and "rng a = RandomState np (seed a)" and "rng b = RandomState np (seed b)"
    and "batches_of_calls np a calls = Some (rs, a')"
  shows "batches_of_calls np b calls = Some (rs, a')
         \<and> batches_of_calls np (reset_rng np a') calls = Some (rs, a')"
proof -
  have ba: "b = a" using assms(1-6) by (rule fresh_iterator_eq)
  have "a' = a\<lparr>rng := rng a'\<rparr>" using assms(7) by (rule batches_of_calls_frame)
  then have "seed a' = seed a" "a'\<lparr>rng := RandomState np (seed a)\<rparr> = a\<lparr>rng := RandomState np (seed a)\<rparr>"
    by (metis crops_iterator.select_convs(4) crops_iterator.surjective crops_iterator.update_convs(5))+
  then have "reset_rng np a' = a\<lparr>rng := rng a\<rparr>"
    using assms(5) by (simp add: reset_rng_def)
  then have "reset_rng np a' = a" by simp
  then show ?thesis using ba assms(7) by simp
qed

theorem determinism_witness:
  "batch_size (init_iterator example_random 2 3 2 [2017, 6, 28])
     = batch_size (init_iterator example_random 2 3 2 [2017, 6, 28])
   \<and> input_time_length (init_iterator example_random 2 3 2 [2017, 6, 28])
     = input_time_length (init_iterator example_random 2 3 2 [2017, 6, 28])
   \<and> n_preds_per_input (init_iterator example_random 2 3 2 [2017, 6, 28])
     = n_preds_per_input (init_iterator example_random 2 3 2 [2017, 6, 28])
   \<and> seed (init_iterator example_random 2 3 2 [2017, 6, 28])
     = seed (init_iterator example_random 2 3 2 [2017, 6, 28])
   \<and> rng (init_iterator example_random 2 3 2 [2017, 6, 28])
     = RandomState example_random (seed (init_iterator example_random 2 3 2 [2017, 6, 28]))
   \<and> batches_of_calls example_random (init_iterator example_random 2 3 2 [2017, 6, 28])
        [(example_dataset, True), (example_dataset, True)]
     = Some ([Inr ([([[1, 2, 3], [3, 4, 5]], [Scalar 7, Scalar 7]), ([[4, 5, 6]], [Scalar 7])], None),
              Inr ([([[3, 4, 5], [4, 5, 6]], [Scalar 7, Scalar 7]), ([[1, 2, 3]], [Scalar 7])], None)],
             \<lparr>batch_size = 2, input_time_length = 3, n_preds_per_input = 2,
              seed = [2017, 6, 28], rng = 5\<rparr>)
   \<and> batches_of_calls example_random
        (reset_rng example_random
           \<lparr>batch_size = 2, input_time_length = 3, n_preds_per_input = 2,
            seed = [2017, 6, 28], rng = 5\<rparr>)
        [(example_dataset, True), (example_dataset, True)]
     = Some ([Inr ([([[1, 2, 3], [3, 4, 5]], [Scalar 7, Scalar 7]), ([[4, 5, 6]], [Scalar 7])], None),
              Inr ([([[3, 4, 5], [4, 5, 6]], [Scalar 7, Scalar 7]), ([[1, 2, 3]], [Scalar 7])], None)],
             \<lparr>batch_size = 2, input_time_length = 3, n_preds_per_input = 2,
              seed = [2017, 6, 28], rng = 5\<rparr>)"
proof -
  let ?a = "init_iterator example_random 2 3 2 [2017, 6, 28]"
  have fresh: "rng ?a = RandomState example_random (seed ?a)"
    by (simp add: init_iterator_def)
  have run: "batches_of_calls example_random ?a [(example_dataset, True), (example_dataset, True)]
     = Some ([Inr ([([[1, 2, 3], [3, 4, 5]], [Scalar 7, Scalar 7]), ([[4, 5, 6]], [Scalar 7])], None),
              Inr ([([[3, 4, 5], [4, 5, 6]], [Scalar 7, Scalar 7]), ([[1, 2, 3]], [Scalar 7])], None)],
             \<lparr>batch_size = 2, input_time_length = 3, n_preds_per_input = 2,
              seed = [2017, 6, 28], rng = 5\<rparr>)"
    by code_simp
  show ?thesis
    using determinism [OF refl refl refl refl fresh fresh run] fresh run by simp
qed

end
